theory Spec2Isabelle
  imports Main
begin

section \<open>Brewery counts over the Open Brewery DB API\<close>

text \<open>
  A shallow embedding of \<^verbatim>\<open>brewery-async.py\<close>: the paginated counter
  \<^verbatim>\<open>get_brewery_count\<close>, its asynchronous wrapper
  \<^verbatim>\<open>async_get_brewery_count\<close>, the dispatcher
  \<^verbatim>\<open>get_brewery_counts_for_states\<close> and the serial list comprehension of the
  main block.
\<close>

subsection \<open>The HTTP client\<close>

text \<open>
  The program talks to the network through two calls of the \<^verbatim>\<open>requests\<close>
  library: \<^verbatim>\<open>req.get(url)\<close> and \<^verbatim>\<open>response.json()\<close>. Either call may raise
  instead of returning; the program has no \<^verbatim>\<open>try\<close>, so such an exception leaves
  \<^verbatim>\<open>get_brewery_count\<close> as it is. The payload of a decoded response is a JSON
  array, a list of records of some type \<open>'r\<close>.

  The client is a parameter of the model, a function from the URL to what the call yields.
  The same URL is therefore answered in the same way each time it is requested.
  The two \<^verbatim>\<open>print\<close> calls write to standard output only and are left out.
\<close>

datatype error = RequestException string | JSONDecodeError string

record 'r response =
  status_code :: int
  json :: "error + 'r list"

type_synonym 'r http_get = "string \<Rightarrow> error + 'r response"

subsection \<open>Formatting the request URL\<close>

text \<open>
  The f-string of the source inserts \<^verbatim>\<open>state\<close> as it is and the two integers in
  decimal notation.
\<close>

definition digit_char :: "nat \<Rightarrow> char" where
  "digit_char d = ''0123456789'' ! d"

function str_nat :: "nat \<Rightarrow> string" where
  "str_nat n = (if n < 10 then [digit_char n] else str_nat (n div 10) @ [digit_char (n mod 10)])"
  by pat_completeness auto
termination
  by (relation "measure id") auto

declare str_nat.simps [simp del]

definition str_int :: "int \<Rightarrow> string" where
  "str_int i = (if i < 0 then CHR ''-'' # str_nat (nat (- i)) else str_nat (nat i))"

definition brewery_url :: "string \<Rightarrow> int \<Rightarrow> int \<Rightarrow> string" where
  "brewery_url state per_page page =
     ''https://api.openbrewerydb.org/v1/breweries?by_state='' @ state
       @ ''&per_page='' @ str_int per_page @ ''&page='' @ str_int page"

subsection \<open>The paginated counter\<close>

text \<open>
  \<^verbatim>\<open>dict(state=state, brewery_count=count)\<close>: a dictionary with exactly these two
  keys.
\<close>

record brewery_count_result =
  state :: string
  brewery_count :: int

definition per_page :: int where
  "per_page = 200"

text \<open>
  The \<^verbatim>\<open>while True\<close> loop. It need not end (a server that answers every page with
  200 records keeps it running), so the result is an option and \<open>None\<close> stands for a
  loop that never leaves. The loop variables \<^verbatim>\<open>page\<close> and \<^verbatim>\<open>count\<close> are
  arguments; \<open>reqs\<close> records the URLs passed to \<^verbatim>\<open>req.get\<close> so far, in order.
  The loop is left with the final count (\<open>Inr\<close>) or with the exception a library call
  raised (\<open>Inl\<close>). A request counts as successful, in the words of the source, when
  \<^verbatim>\<open>response.status_code\<close> is 200.
\<close>

partial_function (option) count_pages ::
  "'r http_get \<Rightarrow> string \<Rightarrow> int \<Rightarrow> int \<Rightarrow> string list \<Rightarrow> ((error + int) \<times> string list) option"
where
  "count_pages get st page count reqs =
     (let url = brewery_url st per_page page in
      case get url of
        Inl e \<Rightarrow> Some (Inl e, reqs @ [url])
      | Inr response \<Rightarrow>
          if status_code response \<noteq> 200 then Some (Inr count, reqs @ [url])
          else
            (case json response of
               Inl e \<Rightarrow> Some (Inl e, reqs @ [url])
             | Inr breweries \<Rightarrow>
                 if breweries = [] then Some (Inr count, reqs @ [url])
                 else
                   (let count' = count + int (length breweries) in
                    if int (length breweries) < per_page then Some (Inr count', reqs @ [url])
                    else count_pages get st (page + 1) count' (reqs @ [url]))))"

text \<open>
  \<^verbatim>\<open>get_brewery_count\<close>: the loop from \<^verbatim>\<open>page = 1\<close>, \<^verbatim>\<open>count = 0\<close>, then the
  dictionary. The second component is the list of requests issued.
\<close>

definition get_brewery_count ::
  "'r http_get \<Rightarrow> string \<Rightarrow> ((error + brewery_count_result) \<times> string list) option"
where
  "get_brewery_count get st =
     (case count_pages get st 1 0 [] of
        None \<Rightarrow> None
      | Some (Inl e, reqs) \<Rightarrow> Some (Inl e, reqs)
      | Some (Inr count, reqs) \<Rightarrow> Some (Inr \<lparr>state = st, brewery_count = count\<rparr>, reqs))"

subsection \<open>The asynchronous wrapper and the dispatcher\<close>

text \<open>
  \<^verbatim>\<open>async_get_brewery_count\<close> hands \<^verbatim>\<open>get_brewery_count\<close> to a worker thread
  (\<^verbatim>\<open>run_in_executor\<close>) and awaits it: the coroutine yields what the call returns,
  raises what it raises, and never completes when the call never returns. The caller does
  not see the requests.
\<close>

definition async_get_brewery_count ::
  "'r http_get \<Rightarrow> string \<Rightarrow> (error + brewery_count_result) option"
where
  "async_get_brewery_count get st = map_option fst (get_brewery_count get st)"

text \<open>
  \<^verbatim>\<open>asyncio.gather(*tasks)\<close>, as the standard library documents it: the awaitables run
  concurrently; the first exception raised by one of them is propagated at once; when all
  of them have returned, the result is the list of their values, read from the awaitables
  in the order in which they were passed.

  The scheduler is a parameter: \<open>order\<close> lists task indices in the order in which the
  tasks complete. \<open>tasks ! i\<close> is what task \<open>i\<close> yields (\<open>None\<close>: it never completes, so a
  completion event for it never takes place; an index beyond the list names no task).
  \<open>slots\<close> holds, per task, the value stored when it returned. When no completion is left
  and some task has not returned, the \<^verbatim>\<open>await\<close> never returns.
\<close>

fun gather :: "nat list \<Rightarrow> (error + 'a) option list \<Rightarrow> 'a option list \<Rightarrow> (error + 'a list) option" where
  "gather [] tasks slots = map_option Inr (those slots)"
| "gather (i # order) tasks slots =
     (if i < length tasks then
        (case tasks ! i of
           None \<Rightarrow> gather order tasks slots
         | Some (Inl e) \<Rightarrow> Some (Inl e)
         | Some (Inr r) \<Rightarrow> gather order tasks (slots[i := Some r]))
      else gather order tasks slots)"

definition get_brewery_counts_for_states ::
  "nat list \<Rightarrow> 'r http_get \<Rightarrow> string list \<Rightarrow> (error + brewery_count_result list) option"
where
  "get_brewery_counts_for_states order get states =
     (let tasks = map (async_get_brewery_count get) states in
      gather order tasks (replicate (length tasks) None))"

text \<open>
  The serial run of the main block,
  \<^verbatim>\<open>[get_brewery_count(s) for s in states]\<close>: one call after the other, from left to
  right; the first exception ends the comprehension.
\<close>

fun serial_brewery_counts ::
  "'r http_get \<Rightarrow> string list \<Rightarrow> (error + brewery_count_result list) option"
where
  "serial_brewery_counts get [] = Some (Inr [])"
| "serial_brewery_counts get (s # states) =
     (case get_brewery_count get s of
        None \<Rightarrow> None
      | Some (Inl e, _) \<Rightarrow> Some (Inl e)
      | Some (Inr r, _) \<Rightarrow>
          (case serial_brewery_counts get states of
             None \<Rightarrow> None
           | Some (Inl e) \<Rightarrow> Some (Inl e)
           | Some (Inr rs) \<Rightarrow> Some (Inr (r # rs))))"

subsection \<open>Servers used in the statements\<close>

text \<open>
  A server that holds \<open>records\<close> for a state and serves them 200 to a page answers page
  \<open>p\<close> (counted from 1) with \<open>api_page records p\<close>. This is the service, not the program:
  \<open>api_page\<close> occurs in what is assumed of the client, never in the model of the code.
\<close>

definition api_page :: "'r list \<Rightarrow> int \<Rightarrow> 'r list" where
  "api_page records p = take 200 (drop (200 * nat (p - 1)) records)"

text \<open>
  A mocked client: a table of answers by URL; every other URL is answered with status 404.
\<close>

definition mock_api :: "(string \<times> (error + 'r response)) list \<Rightarrow> 'r http_get" where
  "mock_api table url =
     (case map_of table url of
        Some answer \<Rightarrow> answer
      | None \<Rightarrow> Inr \<lparr>status_code = 404, json = Inl (JSONDecodeError ''Not Found'')\<rparr>)"

text \<open>Maryland as in the example: 100 records on page 1, 9 records on page 2.\<close>

definition maryland_api :: "nat http_get" where
  "maryland_api =
     mock_api
       [(brewery_url ''maryland'' 200 1, Inr \<lparr>status_code = 200, json = Inr [0..<100]\<rparr>),
        (brewery_url ''maryland'' 200 2, Inr \<lparr>status_code = 200, json = Inr [100..<109]\<rparr>)]"

text \<open>
  A server with 409 records for \<open>''ohio''\<close> (two full pages and a short one), 400 records
  for \<open>''New York''\<close> (two full pages, then an empty one), none for \<open>''guam''\<close>, and a
  failure on the second page of \<open>''texas''\<close>.
\<close>

definition demo_api :: "nat http_get" where
  "demo_api =
     mock_api
       [(brewery_url ''ohio'' 200 1, Inr \<lparr>status_code = 200, json = Inr (api_page [0..<409] 1)\<rparr>),
        (brewery_url ''ohio'' 200 2, Inr \<lparr>status_code = 200, json = Inr (api_page [0..<409] 2)\<rparr>),
        (brewery_url ''ohio'' 200 3, Inr \<lparr>status_code = 200, json = Inr (api_page [0..<409] 3)\<rparr>),
        (brewery_url ''New York'' 200 1, Inr \<lparr>status_code = 200, json = Inr (api_page [0..<400] 1)\<rparr>),
        (brewery_url ''New York'' 200 2, Inr \<lparr>status_code = 200, json = Inr (api_page [0..<400] 2)\<rparr>),
        (brewery_url ''New York'' 200 3, Inr \<lparr>status_code = 200, json = Inr (api_page [0..<400] 3)\<rparr>),
        (brewery_url ''guam'' 200 1, Inr \<lparr>status_code = 200, json = Inr []\<rparr>),
        (brewery_url ''texas'' 200 1, Inr \<lparr>status_code = 200, json = Inr [0..<200]\<rparr>),
        (brewery_url ''texas'' 200 2, Inr \<lparr>status_code = 503, json = Inl (JSONDecodeError ''Service Unavailable'')\<rparr>)]"

section \<open>The pagination loop\<close>

subsection \<open>One pass through the loop body\<close>

text \<open>
  Each lemma follows one path through the body of the loop: the ways of leaving it (an empty
  page leaves it like any page of fewer than 200 records, with nothing added to the count)
  and the one way of going round again.
\<close>

lemma count_pages_raised:
  "get (brewery_url st 200 page) = Inl e \<Longrightarrow>
   count_pages get st page count reqs = Some (Inl e, reqs @ [brewery_url st 200 page])"
  by (subst count_pages.simps) (simp add: per_page_def)

lemma count_pages_failed:
  "get (brewery_url st 200 page) = Inr r \<Longrightarrow> status_code r \<noteq> 200 \<Longrightarrow>
   count_pages get st page count reqs = Some (Inr count, reqs @ [brewery_url st 200 page])"
  by (subst count_pages.simps) (simp add: per_page_def)

lemma count_pages_undecodable:
  "get (brewery_url st 200 page) = Inr r \<Longrightarrow> status_code r = 200 \<Longrightarrow> json r = Inl e \<Longrightarrow>
   count_pages get st page count reqs = Some (Inl e, reqs @ [brewery_url st 200 page])"
  by (subst count_pages.simps) (simp add: per_page_def)

lemma count_pages_short:
  "get (brewery_url st 200 page) = Inr r \<Longrightarrow> status_code r = 200 \<Longrightarrow> json r = Inr xs \<Longrightarrow>
   length xs < 200 \<Longrightarrow>
   count_pages get st page count reqs =
     Some (Inr (count + int (length xs)), reqs @ [brewery_url st 200 page])"
  by (subst count_pages.simps) (simp add: per_page_def Let_def)

lemma count_pages_full:
  "get (brewery_url st 200 page) = Inr r \<Longrightarrow> status_code r = 200 \<Longrightarrow> json r = Inr xs \<Longrightarrow>
   200 \<le> length xs \<Longrightarrow>
   count_pages get st page count reqs =
     count_pages get st (page + 1) (count + int (length xs)) (reqs @ [brewery_url st 200 page])"
  by (subst count_pages.simps) (auto simp add: per_page_def Let_def)

subsection \<open>Runs over full pages\<close>

text \<open>
  A stretch of pages that all come back with status 200 and at least 200 records is walked
  through page by page; the count grows by the number of records on them.
\<close>

lemma count_pages_unroll:
  "(\<forall>i<length pages. get (brewery_url st 200 (p + int i)) =
        Inr \<lparr>status_code = 200, json = Inr (pages ! i)\<rparr> \<and> 200 \<le> length (pages ! i)) \<Longrightarrow>
   count_pages get st p c reqs =
     count_pages get st (p + int (length pages)) (c + int (length (concat pages)))
       (reqs @ map (brewery_url st 200) [p..p + int (length pages) - 1])"
proof (induction pages arbitrary: p c reqs)
  case Nil
  then show ?case by simp
next
  case (Cons xs pages)
  from Cons.prems have hd: "get (brewery_url st 200 p) = Inr \<lparr>status_code = 200, json = Inr xs\<rparr>"
    and full: "200 \<le> length xs"
    by force+
  have tl: "\<forall>i<length pages. get (brewery_url st 200 (p + 1 + int i)) =
        Inr \<lparr>status_code = 200, json = Inr (pages ! i)\<rparr> \<and> 200 \<le> length (pages ! i)"
  proof (intro allI impI)
    fix i assume "i < length pages"
    then have "Suc i < length (xs # pages)" by simp
    from Cons.prems[rule_format, OF this] show "get (brewery_url st 200 (p + 1 + int i)) =
        Inr \<lparr>status_code = 200, json = Inr (pages ! i)\<rparr> \<and> 200 \<le> length (pages ! i)"
      by (simp add: algebra_simps)
  qed
  have step: "count_pages get st p c reqs =
      count_pages get st (p + 1) (c + int (length xs)) (reqs @ [brewery_url st 200 p])"
    using hd full by (intro count_pages_full[where r="\<lparr>status_code = 200, json = Inr xs\<rparr>"]) simp_all
  have upto: "[p..p + int (length (xs # pages)) - 1] = p # [p + 1..p + 1 + int (length pages) - 1]"
    by (subst upto_rec1) simp_all
  show ?case
    unfolding step Cons.IH[OF tl] upto
    by (simp add: algebra_simps)
qed

lemma count_pages_stops:
  assumes full: "\<forall>i<length pages. get (brewery_url st 200 (p + int i)) =
        Inr \<lparr>status_code = 200, json = Inr (pages ! i)\<rparr> \<and> 200 \<le> length (pages ! i)"
    and fin: "case get (brewery_url st 200 (p + int (length pages))) of
        Inl e \<Rightarrow> out = Inl e
      | Inr r \<Rightarrow>
          if status_code r \<noteq> 200 then out = Inr (c + int (length (concat pages)))
          else (case json r of
                  Inl e \<Rightarrow> out = Inl e
                | Inr xs \<Rightarrow> length xs < 200 \<and>
                    out = Inr (c + int (length (concat pages)) + int (length xs)))"
  shows "count_pages get st p c reqs =
     Some (out, reqs @ map (brewery_url st 200) [p..p + int (length pages)])"
proof -
  let ?n = "p + int (length pages)"
  let ?c = "c + int (length (concat pages))"
  let ?reqs = "reqs @ map (brewery_url st 200) [p..?n - 1]"
  have last: "count_pages get st ?n ?c ?reqs = Some (out, ?reqs @ [brewery_url st 200 ?n])"
  proof (cases "get (brewery_url st 200 ?n)")
    case (Inl e)
    with fin show ?thesis by (simp add: count_pages_raised)
  next
    case (Inr r)
    show ?thesis
    proof (cases "status_code r \<noteq> 200")
      case True
      with Inr fin show ?thesis by (simp add: count_pages_failed)
    next
      case ok: False
      show ?thesis
      proof (cases "json r")
        case (Inl e)
        with ok Inr fin show ?thesis by (simp add: count_pages_undecodable)
      next
        case js: (Inr xs)
        with ok Inr fin have "length xs < 200" and "out = Inr (?c + int (length xs))"
          by simp_all
        with ok Inr js show ?thesis by (simp add: count_pages_short)
      qed
    qed
  qed
  have upto: "[p..?n] = [p..?n - 1] @ [?n]"
    by (rule upto_rec2) simp
  show ?thesis
    unfolding count_pages_unroll[OF full] last upto by simp
qed

subsection \<open>Runs that return\<close>

text \<open>
  Whatever a returning run returns, it has gone through a number of full pages and has
  then met a page on which the body leaves the loop. The proof is by induction over the
  least fixed point that defines the loop.
\<close>

lemma count_pages_returns:
  assumes "count_pages get st p c reqs = Some y"
  shows "\<exists>pages.
     (\<forall>i<length pages. get (brewery_url st 200 (p + int i)) =
        Inr \<lparr>status_code = 200, json = Inr (pages ! i)\<rparr> \<and> 200 \<le> length (pages ! i)) \<and>
     snd y = reqs @ map (brewery_url st 200) [p..p + int (length pages)] \<and>
     (case get (brewery_url st 200 (p + int (length pages))) of
        Inl e \<Rightarrow> fst y = Inl e
      | Inr r \<Rightarrow>
          if status_code r \<noteq> 200 then fst y = Inr (c + int (length (concat pages)))
          else (case json r of
                  Inl e \<Rightarrow> fst y = Inl e
                | Inr xs \<Rightarrow> length xs < 200 \<and>
                    fst y = Inr (c + int (length (concat pages)) + int (length xs))))"
  using assms
proof (induction get st p c reqs y rule: count_pages.raw_induct[rotated 1, consumes 1, case_names 1])
  case (1 count_pages get st page count reqs y)
  let ?url = "brewery_url st 200 page"
  show ?case
  proof (cases "get ?url")
    case (Inl e)
    with 1(2) show ?thesis
      by (intro exI[of _ "[]"]) (auto simp: per_page_def)
  next
    case (Inr r)
    show ?thesis
    proof (cases "status_code r \<noteq> 200")
      case True
      with Inr 1(2) show ?thesis
        by (intro exI[of _ "[]"]) (auto simp: per_page_def)
    next
      case ok: False
      show ?thesis
      proof (cases "json r")
        case (Inl e)
        with ok Inr 1(2) show ?thesis
          by (intro exI[of _ "[]"]) (auto simp: per_page_def)
      next
        case js: (Inr xs)
        show ?thesis
        proof (cases "length xs < 200")
          case True
          with js ok Inr 1(2) show ?thesis
            by (intro exI[of _ "[]"]) (auto simp: per_page_def Let_def split: if_splits)
        next
          case False
          then have nonempty: "xs \<noteq> []" by auto
          from False js ok Inr 1(2) nonempty
          have rec: "count_pages get st (page + 1) (count + int (length xs)) (reqs @ [?url]) = Some y"
            by (simp add: per_page_def Let_def)
          from 1(1)[OF rec] obtain pages where
            full: "\<forall>i<length pages. get (brewery_url st 200 (page + 1 + int i)) =
               Inr \<lparr>status_code = 200, json = Inr (pages ! i)\<rparr> \<and> 200 \<le> length (pages ! i)"
            and rq: "snd y = (reqs @ [?url]) @ map (brewery_url st 200) [page + 1..page + 1 + int (length pages)]"
            and fin: "(case get (brewery_url st 200 (page + 1 + int (length pages))) of
                Inl e \<Rightarrow> fst y = Inl e
              | Inr r \<Rightarrow>
                  if status_code r \<noteq> 200 then fst y = Inr (count + int (length xs) + int (length (concat pages)))
                  else (case json r of
                          Inl e \<Rightarrow> fst y = Inl e
                        | Inr xs' \<Rightarrow> length xs' < 200 \<and>
                            fst y = Inr (count + int (length xs) + int (length (concat pages)) + int (length xs'))))"
            by blast
          have r_eq: "r = \<lparr>status_code = 200, json = Inr xs\<rparr>"
            using ok js by (cases r) simp
          have full': "\<forall>i<length (xs # pages). get (brewery_url st 200 (page + int i)) =
               Inr \<lparr>status_code = 200, json = Inr ((xs # pages) ! i)\<rparr> \<and> 200 \<le> length ((xs # pages) ! i)"
          proof (intro allI impI)
            fix i assume i: "i < length (xs # pages)"
            show "get (brewery_url st 200 (page + int i)) =
               Inr \<lparr>status_code = 200, json = Inr ((xs # pages) ! i)\<rparr> \<and> 200 \<le> length ((xs # pages) ! i)"
            proof (cases i)
              case 0
              with Inr r_eq False show ?thesis by simp
            next
              case (Suc j)
              with i full[rule_format, of j] show ?thesis by (simp add: algebra_simps)
            qed
          qed
          have upto: "[page..page + int (length (xs # pages))] = page # [page + 1..page + 1 + int (length pages)]"
            by (subst upto_rec1) (simp_all add: algebra_simps)
          have idx: "page + int (length (xs # pages)) = page + 1 + int (length pages)"
            by simp
          show ?thesis
            apply (intro exI[of _ "xs # pages"] conjI)
              apply (rule full')
             apply (simp only: upto rq)
             apply simp
            using fin apply (auto simp add: algebra_simps split: sum.splits)
            done
        qed
      qed
    qed
  qed
qed

lemma count_pages_Some_iff:
  "count_pages get st p c reqs = Some (out, reqs') \<longleftrightarrow>
   (\<exists>pages.
     (\<forall>i<length pages. get (brewery_url st 200 (p + int i)) =
        Inr \<lparr>status_code = 200, json = Inr (pages ! i)\<rparr> \<and> 200 \<le> length (pages ! i)) \<and>
     reqs' = reqs @ map (brewery_url st 200) [p..p + int (length pages)] \<and>
     (case get (brewery_url st 200 (p + int (length pages))) of
        Inl e \<Rightarrow> out = Inl e
      | Inr r \<Rightarrow>
          if status_code r \<noteq> 200 then out = Inr (c + int (length (concat pages)))
          else (case json r of
                  Inl e \<Rightarrow> out = Inl e
                | Inr xs \<Rightarrow> length xs < 200 \<and>
                    out = Inr (c + int (length (concat pages)) + int (length xs)))))"
  (is "?L \<longleftrightarrow> ?R")
proof
  assume ?L
  from count_pages_returns[OF this] show ?R unfolding fst_conv snd_conv .
next
  assume ?R
  then show ?L by (auto intro: count_pages_stops)
qed

lemma get_brewery_count_Some_iff:
  "get_brewery_count get st = Some (out, reqs) \<longleftrightarrow>
   (\<exists>c. count_pages get st 1 0 [] = Some (c, reqs) \<and> out = map_sum id (\<lambda>n. \<lparr>state = st, brewery_count = n\<rparr>) c)"
  by (auto simp: get_brewery_count_def split: option.splits sum.splits prod.splits)

lemma get_brewery_count_run:
  assumes full: "\<forall>i<length pages. get (brewery_url st 200 (1 + int i)) =
        Inr \<lparr>status_code = 200, json = Inr (pages ! i)\<rparr> \<and> 200 \<le> length (pages ! i)"
    and fin: "get (brewery_url st 200 (1 + int (length pages))) = Inr r"
    and stop: "status_code r \<noteq> 200 \<and> n = 0 \<or>
               status_code r = 200 \<and> (\<exists>xs. json r = Inr xs \<and> length xs < 200 \<and> n = length xs)"
  shows "get_brewery_count get st =
     Some (Inr \<lparr>state = st, brewery_count = int (length (concat pages)) + int n\<rparr>,
           map (brewery_url st 200) [1..1 + int (length pages)])"
proof -
  have "count_pages get st 1 0 [] =
     Some (Inr (0 + int (length (concat pages)) + int n), [] @ map (brewery_url st 200) [1..1 + int (length pages)])"
    using fin stop by (intro count_pages_stops[OF full]) auto
  then show ?thesis by (simp add: get_brewery_count_def)
qed

subsection \<open>Termination\<close>

text \<open>
  Once some page from \<open>p\<close> on ends the loop, the run from \<open>p\<close> returns, and it has issued
  at most one request for each page up to that one.
\<close>

lemma count_pages_terminates:
  assumes stop: "get (brewery_url st 200 n) = Inr r"
      "status_code r \<noteq> 200 \<or> (\<exists>xs. json r = Inr xs \<and> length xs < 200)"
    and le: "p \<le> n"
  shows "\<exists>out reqs'. count_pages get st p c reqs = Some (out, reqs') \<and>
           length reqs' \<le> length reqs + nat (n - p + 1)"
  using le
proof (induction "nat (n - p)" arbitrary: p c reqs)
  case 0
  then have "p = n" by simp
  with stop show ?case
    by (cases "status_code r = 200")
       (auto simp: count_pages_failed count_pages_short)
next
  case (Suc k)
  then have lt: "p < n" by linarith
  let ?url = "brewery_url st 200 p"
  show ?case
  proof (cases "get ?url")
    case (Inl e)
    then show ?thesis using lt by (simp add: count_pages_raised)
  next
    case (Inr r')
    show ?thesis
    proof (cases "status_code r' \<noteq> 200")
      case True
      with Inr show ?thesis using lt by (simp add: count_pages_failed)
    next
      case ok: False
      show ?thesis
      proof (cases "json r'")
        case (Inl e)
        with ok Inr show ?thesis using lt by (simp add: count_pages_undecodable)
      next
        case js: (Inr xs)
        show ?thesis
        proof (cases "length xs < 200")
          case True
          with js ok Inr show ?thesis using lt by (simp add: count_pages_short)
        next
          case False
          with js ok Inr have step: "count_pages get st p c reqs =
              count_pages get st (p + 1) (c + int (length xs)) (reqs @ [?url])"
            by (intro count_pages_full) simp_all
          have "k = nat (n - (p + 1))" using Suc.hyps(2) by linarith
          moreover have "p + 1 \<le> n" using lt by simp
          ultimately obtain out reqs' where
            "count_pages get st (p + 1) (c + int (length xs)) (reqs @ [?url]) = Some (out, reqs')"
            "length reqs' \<le> length (reqs @ [?url]) + nat (n - (p + 1) + 1)"
            using Suc.hyps(1) by blast
          moreover have "length (reqs @ [?url]) + nat (n - (p + 1) + 1) = length reqs + nat (n - p + 1)"
            using lt by simp
          ultimately show ?thesis using step by simp
        qed
      qed
    qed
  qed
qed

subsection \<open>The request URL\<close>

lemma str_int_digits: "str_int 1 = ''1''" "str_int 2 = ''2''" "str_int 3 = ''3''" "str_int 200 = ''200''"
  by (simp_all add: str_int_def str_nat.simps digit_char_def)

lemma brewery_url_200:
  "brewery_url st 200 p =
     ''https://api.openbrewerydb.org/v1/breweries?by_state='' @ st @ ''&per_page=200&page='' @ str_int p"
  by (simp add: brewery_url_def str_int_digits)

subsection \<open>A server that pages its records\<close>

lemma api_page_Suc: "api_page records (1 + int i) = take 200 (drop (200 * i) records)"
  by (simp add: api_page_def)

lemma length_api_page_full:
  "200 * Suc i \<le> length records \<Longrightarrow> length (api_page records (1 + int i)) = 200"
  by (simp add: api_page_Suc)

lemma api_pages_full:
  assumes "k = length records div 200"
  shows "\<forall>p\<in>{1..int k}. length (api_page records p) = 200"
proof
  fix p assume p: "p \<in> {1..int k}"
  then have "Suc (nat (p - 1)) \<le> k" by auto
  then have "200 * Suc (nat (p - 1)) \<le> 200 * k" by simp
  also have "\<dots> \<le> length records" unfolding assms by simp
  finally have "length (api_page records (1 + int (nat (p - 1)))) = 200"
    by (rule length_api_page_full)
  with p show "length (api_page records p) = 200"
    by simp
qed

lemma concat_api_pages:
  "concat (map (\<lambda>i. api_page records (1 + int i)) [0..<k]) = take (200 * k) records"
proof (induction k)
  case 0
  then show ?case by simp
next
  case (Suc k)
  have "take (200 * Suc k) records = take (200 * k) records @ take 200 (drop (200 * k) records)"
    by (simp add: take_add[symmetric] add.commute)
  with Suc show ?case by (simp add: api_page_Suc)
qed

lemma get_brewery_count_paged:
  assumes served: "\<forall>p\<in>{1..int k + 1}. get (brewery_url st 200 p) =
       Inr \<lparr>status_code = 200, json = Inr (api_page records p)\<rparr>"
    and k: "k = length records div 200"
  shows "get_brewery_count get st =
     Some (Inr \<lparr>state = st, brewery_count = int (length records)\<rparr>,
           map (brewery_url st 200) [1..int k + 1])"
proof -
  let ?pages = "map (\<lambda>i. api_page records (1 + int i)) [0..<k]"
  let ?last = "api_page records (1 + int k)"
  have full: "\<forall>i<length ?pages. get (brewery_url st 200 (1 + int i)) =
        Inr \<lparr>status_code = 200, json = Inr (?pages ! i)\<rparr> \<and> 200 \<le> length (?pages ! i)"
  proof (intro allI impI)
    fix i assume "i < length ?pages"
    then have i: "i < k" by simp
    then have "200 * Suc i \<le> length records" using k by simp
    then have "length (api_page records (1 + int i)) = 200" by (rule length_api_page_full)
    moreover have "1 + int i \<in> {1..int k + 1}" using i by simp
    ultimately show "get (brewery_url st 200 (1 + int i)) =
        Inr \<lparr>status_code = 200, json = Inr (?pages ! i)\<rparr> \<and> 200 \<le> length (?pages ! i)"
      using served i by simp
  qed
  have fin: "get (brewery_url st 200 (1 + int (length ?pages))) =
       Inr \<lparr>status_code = 200, json = Inr ?last\<rparr>"
    using served by simp
  have rest: "length records - 200 * k = length records mod 200"
    unfolding k by (rule minus_mult_div_eq_mod)
  have short: "length ?last = length records mod 200"
    by (simp add: api_page_Suc rest)
  then have lt: "length ?last < 200" by simp
  have "length (concat ?pages) + length ?last = length records"
    unfolding concat_api_pages short using k by simp
  then have total: "int (length (concat ?pages)) + int (length ?last) = int (length records)"
    by (simp only: of_nat_add[symmetric])
  have "get_brewery_count get st =
     Some (Inr \<lparr>state = st, brewery_count = int (length (concat ?pages)) + int (length ?last)\<rparr>,
           map (brewery_url st 200) [1..1 + int (length ?pages)])"
    using lt by (intro get_brewery_count_run[OF full fin]) simp
  then show ?thesis
    unfolding total by (simp add: add.commute)
qed

subsection \<open>The mocked servers\<close>

lemma maryland_pages:
  "maryland_api (brewery_url ''maryland'' 200 1) = Inr \<lparr>status_code = 200, json = Inr [0..<100]\<rparr>"
  "maryland_api (brewery_url ''maryland'' 200 2) = Inr \<lparr>status_code = 200, json = Inr [100..<109]\<rparr>"
  by (simp_all add: maryland_api_def mock_api_def brewery_url_def str_int_digits)

lemma ohio_pages:
  "demo_api (brewery_url ''ohio'' 200 1) = Inr \<lparr>status_code = 200, json = Inr (api_page [0..<409] 1)\<rparr>"
  "demo_api (brewery_url ''ohio'' 200 2) = Inr \<lparr>status_code = 200, json = Inr (api_page [0..<409] 2)\<rparr>"
  "demo_api (brewery_url ''ohio'' 200 3) = Inr \<lparr>status_code = 200, json = Inr (api_page [0..<409] 3)\<rparr>"
  by (simp_all add: demo_api_def mock_api_def brewery_url_def str_int_digits)

lemma texas_pages:
  "demo_api (brewery_url ''texas'' 200 1) = Inr \<lparr>status_code = 200, json = Inr [0..<200]\<rparr>"
  "demo_api (brewery_url ''texas'' 200 2) = Inr \<lparr>status_code = 503, json = Inl (JSONDecodeError ''Service Unavailable'')\<rparr>"
  by (simp_all add: demo_api_def mock_api_def brewery_url_def str_int_digits)

lemma demo_pages:
  "demo_api (brewery_url ''New York'' 200 1) = Inr \<lparr>status_code = 200, json = Inr (api_page [0..<400] 1)\<rparr>"
  "demo_api (brewery_url ''New York'' 200 2) = Inr \<lparr>status_code = 200, json = Inr (api_page [0..<400] 2)\<rparr>"
  "demo_api (brewery_url ''New York'' 200 3) = Inr \<lparr>status_code = 200, json = Inr (api_page [0..<400] 3)\<rparr>"
  "demo_api (brewery_url ''guam'' 200 1) = Inr \<lparr>status_code = 200, json = Inr []\<rparr>"
  by (simp_all add: demo_api_def mock_api_def brewery_url_def str_int_digits)

lemma demo_counts:
  "get_brewery_count demo_api ''guam'' =
     Some (Inr \<lparr>state = ''guam'', brewery_count = 0\<rparr>, [brewery_url ''guam'' 200 1])"
  "get_brewery_count demo_api ''texas'' =
     Some (Inr \<lparr>state = ''texas'', brewery_count = 200\<rparr>,
           [brewery_url ''texas'' 200 1, brewery_url ''texas'' 200 2])"
  "get_brewery_count demo_api ''ohio'' =
     Some (Inr \<lparr>state = ''ohio'', brewery_count = 409\<rparr>,
           [brewery_url ''ohio'' 200 1, brewery_url ''ohio'' 200 2, brewery_url ''ohio'' 200 3])"
proof -
  show "get_brewery_count demo_api ''guam'' =
     Some (Inr \<lparr>state = ''guam'', brewery_count = 0\<rparr>, [brewery_url ''guam'' 200 1])"
    using get_brewery_count_run[of "[]" demo_api "''guam''" "\<lparr>status_code = 200, json = Inr []\<rparr>" 0]
    by (simp add: demo_pages)
  show "get_brewery_count demo_api ''texas'' =
     Some (Inr \<lparr>state = ''texas'', brewery_count = 200\<rparr>,
           [brewery_url ''texas'' 200 1, brewery_url ''texas'' 200 2])"
    using get_brewery_count_run[of "[[0..<200]]" demo_api "''texas''"
        "\<lparr>status_code = 503, json = Inl (JSONDecodeError ''Service Unavailable'')\<rparr>" 0]
    by (simp add: texas_pages upto.simps)
  show "get_brewery_count demo_api ''ohio'' =
     Some (Inr \<lparr>state = ''ohio'', brewery_count = 409\<rparr>,
           [brewery_url ''ohio'' 200 1, brewery_url ''ohio'' 200 2, brewery_url ''ohio'' 200 3])"
    using get_brewery_count_run[of "[api_page [0..<409] 1, api_page [0..<409] 2]" demo_api "''ohio''"
        "\<lparr>status_code = 200, json = Inr (api_page [0..<409] 3)\<rparr>" 9]
    by (simp add: ohio_pages less_Suc_eq api_page_def upto.simps)
qed

section \<open>Gathering the tasks\<close>

text \<open>
  \<open>gather\<close> returns a list of values exactly when every task has returned a value, and the
  list then holds the value of task \<open>i\<close> at position \<open>i\<close>, whatever the order of completion.
\<close>

lemma those_eq_Some: "those xs = Some ys \<longleftrightarrow> xs = map Some ys"
proof (induction xs arbitrary: ys)
  case Nil
  then show ?case by auto
next
  case (Cons x xs)
  then show ?case by (cases x; cases ys) auto
qed

lemma gather_returns:
  assumes "gather order tasks slots = Some (Inr rs)"
    and "length slots = length tasks"
    and "\<forall>i<length tasks. \<forall>r. slots ! i = Some r \<longrightarrow> tasks ! i = Some (Inr r)"
  shows "tasks = map (\<lambda>r. Some (Inr r)) rs"
  using assms
proof (induction order arbitrary: slots)
  case Nil
  then have slots: "slots = map Some rs"
    by (auto simp: those_eq_Some)
  show ?case
  proof (rule nth_equalityI)
    show "length tasks = length (map (\<lambda>r. Some (Inr r)) rs)"
      using Nil.prems(2) slots by simp
  next
    fix i assume "i < length tasks"
    with Nil.prems(2,3) slots show "tasks ! i = map (\<lambda>r. Some (Inr r)) rs ! i"
      by simp
  qed
next
  case (Cons i order)
  show ?case
  proof (cases "i < length tasks")
    case False
    with Cons show ?thesis by simp
  next
    case True
    show ?thesis
    proof (cases "tasks ! i")
      case None
      with True Cons show ?thesis by simp
    next
      case (Some a)
      show ?thesis
      proof (cases a)
        case (Inl e)
        with Some True Cons.prems(1) show ?thesis by simp
      next
        case (Inr r)
        with Some True Cons.prems(1)
        have "gather order tasks (slots[i := Some r]) = Some (Inr rs)" by simp
        moreover have "length (slots[i := Some r]) = length tasks"
          using Cons.prems(2) by simp
        moreover have "\<forall>j<length tasks. \<forall>r'. slots[i := Some r] ! j = Some r' \<longrightarrow>
            tasks ! j = Some (Inr r')"
          using Cons.prems(2,3) Some Inr True by (auto simp: nth_list_update split: if_splits)
        ultimately show ?thesis by (rule Cons.IH)
      qed
    qed
  qed
qed

lemma gather_all_returned:
  assumes "tasks = map (\<lambda>r. Some (Inr r)) rs"
    and "length slots = length tasks"
    and "\<forall>i<length tasks. \<forall>r. slots ! i = Some r \<longrightarrow> tasks ! i = Some (Inr r)"
    and "\<forall>i<length tasks. slots ! i = None \<longrightarrow> i \<in> set order"
  shows "gather order tasks slots = Some (Inr rs)"
  using assms(2-4)
proof (induction order arbitrary: slots)
  case Nil
  have "slots = map Some rs"
  proof (rule nth_equalityI)
    show "length slots = length (map Some rs)"
      using Nil.prems(1) assms(1) by simp
  next
    fix i assume i: "i < length slots"
    with Nil.prems(1,3) obtain r where r: "slots ! i = Some r" by auto
    with i Nil.prems(1,2) have "tasks ! i = Some (Inr r)" by simp
    with i Nil.prems(1) assms(1) have "r = rs ! i" by simp
    with r i Nil.prems(1) assms(1) show "slots ! i = map Some rs ! i" by simp
  qed
  then show ?case by (simp add: those_eq_Some[THEN iffD2])
next
  case (Cons i order)
  show ?case
  proof (cases "i < length tasks")
    case False
    have "gather order tasks slots = Some (Inr rs)"
    proof (rule Cons.IH)
      show "\<forall>j<length tasks. slots ! j = None \<longrightarrow> j \<in> set order"
        using Cons.prems(3) False by auto
    qed (use Cons.prems in auto)
    with False show ?thesis by simp
  next
    case True
    with assms(1) have ti: "tasks ! i = Some (Inr (rs ! i))" by simp
    have "gather order tasks (slots[i := Some (rs ! i)]) = Some (Inr rs)"
    proof (rule Cons.IH)
      show "length (slots[i := Some (rs ! i)]) = length tasks"
        using Cons.prems(1) by simp
      show "\<forall>j<length tasks. \<forall>r. slots[i := Some (rs ! i)] ! j = Some r \<longrightarrow>
          tasks ! j = Some (Inr r)"
        using Cons.prems(1,2) ti True by (auto simp: nth_list_update split: if_splits)
      show "\<forall>j<length tasks. slots[i := Some (rs ! i)] ! j = None \<longrightarrow> j \<in> set order"
        using Cons.prems(1,3) True by (auto simp: nth_list_update split: if_splits)
    qed
    with True ti show ?thesis by simp
  qed
qed

lemma dispatcher_Inr_iff:
  assumes "\<forall>i<length states. async_get_brewery_count get (states ! i) \<noteq> None \<longrightarrow> i \<in> set order"
  shows "get_brewery_counts_for_states order get states = Some (Inr rs) \<longleftrightarrow>
         map (async_get_brewery_count get) states = map (\<lambda>r. Some (Inr r)) rs"
proof -
  let ?tasks = "map (async_get_brewery_count get) states"
  have "gather order ?tasks (replicate (length ?tasks) None) = Some (Inr rs) \<longleftrightarrow>
        ?tasks = map (\<lambda>r. Some (Inr r)) rs"
  proof
    assume "gather order ?tasks (replicate (length ?tasks) None) = Some (Inr rs)"
    then show "?tasks = map (\<lambda>r. Some (Inr r)) rs"
      by (rule gather_returns) simp_all
  next
    assume eq: "?tasks = map (\<lambda>r. Some (Inr r)) rs"
    then have len: "length states = length rs"
      by (rule map_eq_imp_length_eq)
    have "\<forall>i<length states. i \<in> set order"
    proof (intro allI impI)
      fix i assume i: "i < length states"
      with eq have "?tasks ! i = Some (Inr (rs ! i))"
        using len by simp
      with i have "async_get_brewery_count get (states ! i) \<noteq> None"
        by simp
      with assms i show "i \<in> set order" by blast
    qed
    with eq len show "gather order ?tasks (replicate (length ?tasks) None) = Some (Inr rs)"
      by (intro gather_all_returned) simp_all
  qed
  then show ?thesis
    by (simp add: get_brewery_counts_for_states_def Let_def)
qed

lemma serial_Inr_iff:
  "serial_brewery_counts get states = Some (Inr rs) \<longleftrightarrow>
   map (async_get_brewery_count get) states = map (\<lambda>r. Some (Inr r)) rs"
proof (induction states arbitrary: rs)
  case Nil
  then show ?case by auto
next
  case (Cons s states)
  show ?case
  proof (cases rs)
    case Nil
    then show ?thesis
      by (auto simp: async_get_brewery_count_def split: option.splits sum.splits prod.splits)
  next
    case (Cons r rs')
    with Cons.IH[of rs'] show ?thesis
      by (auto simp: async_get_brewery_count_def split: option.splits sum.splits prod.splits)
  qed
qed

lemma async_results_iff:
  "map (async_get_brewery_count get) states = map (\<lambda>r. Some (Inr r)) rs \<longleftrightarrow>
   length rs = length states \<and>
   (\<forall>i<length states. \<exists>reqs. get_brewery_count get (states ! i) = Some (Inr (rs ! i), reqs))"
  by (auto simp: list_eq_iff_nth_eq async_get_brewery_count_def)

section \<open>Properties of the counter\<close>

text \<open>
  C1. A call of \<^verbatim>\<open>get_brewery_count\<close> returns exactly when the server answers some
  number of consecutive pages, from page 1 on, with status 200 and at least 200 records each,
  and the page after them ends the loop. The requests are then the pages 1, 2, ... up to that
  page, one request per page and each with \<^verbatim>\<open>per_page=200\<close>; the count is the number
  of records on the full pages plus those on the last page; and the last page has a status
  other than 200, or is empty, or holds fewer than 200 records (or a call of the client
  library raised there, which the program does not catch).
\<close>

theorem get_brewery_count_pagination:
  "get_brewery_count get st = Some (out, reqs) \<longleftrightarrow>
   (\<exists>pages.
      (\<forall>i<length pages.
         get (brewery_url st 200 (1 + int i)) = Inr \<lparr>status_code = 200, json = Inr (pages ! i)\<rparr> \<and>
         200 \<le> length (pages ! i)) \<and>
      reqs = map (brewery_url st 200) [1..1 + int (length pages)] \<and>
      (case get (brewery_url st 200 (1 + int (length pages))) of
         Inl e \<Rightarrow> out = Inl e
       | Inr r \<Rightarrow>
           if status_code r \<noteq> 200
           then out = Inr \<lparr>state = st, brewery_count = int (length (concat pages))\<rparr>
           else (case json r of
                   Inl e \<Rightarrow> out = Inl e
                 | Inr xs \<Rightarrow>
                     (xs = [] \<or> length xs < 200) \<and>
                     out = Inr \<lparr>state = st,
                       brewery_count = int (length (concat pages)) + int (length xs)\<rparr>)))"
  (is "?L \<longleftrightarrow> (\<exists>pages. ?R pages)")
proof
  assume ?L
  then obtain c where run: "count_pages get st 1 0 [] = Some (c, reqs)"
    and out: "out = map_sum id (\<lambda>n. \<lparr>state = st, brewery_count = n\<rparr>) c"
    by (auto simp: get_brewery_count_Some_iff)
  from run obtain pages where
    full: "\<forall>i<length pages.
         get (brewery_url st 200 (1 + int i)) = Inr \<lparr>status_code = 200, json = Inr (pages ! i)\<rparr> \<and>
         200 \<le> length (pages ! i)"
    and reqs: "reqs = [] @ map (brewery_url st 200) [1..1 + int (length pages)]"
    and fin: "case get (brewery_url st 200 (1 + int (length pages))) of
        Inl e \<Rightarrow> c = Inl e
      | Inr r \<Rightarrow>
          if status_code r \<noteq> 200 then c = Inr (0 + int (length (concat pages)))
          else (case json r of
                  Inl e \<Rightarrow> c = Inl e
                | Inr xs \<Rightarrow> length xs < 200 \<and>
                    c = Inr (0 + int (length (concat pages)) + int (length xs)))"
    unfolding count_pages_Some_iff by blast
  from fin out have fin': "case get (brewery_url st 200 (1 + int (length pages))) of
         Inl e \<Rightarrow> out = Inl e
       | Inr r \<Rightarrow>
           if status_code r \<noteq> 200
           then out = Inr \<lparr>state = st, brewery_count = int (length (concat pages))\<rparr>
           else (case json r of
                   Inl e \<Rightarrow> out = Inl e
                 | Inr xs \<Rightarrow>
                     (xs = [] \<or> length xs < 200) \<and>
                     out = Inr \<lparr>state = st,
                       brewery_count = int (length (concat pages)) + int (length xs)\<rparr>)"
    by (auto split: sum.splits if_splits)
  from reqs have reqs': "reqs = map (brewery_url st 200) [1..1 + int (length pages)]"
    by simp
  show "\<exists>pages. ?R pages"
    by (rule exI[of _ pages], intro conjI) (rule full reqs' fin')+
next
  assume "\<exists>pages. ?R pages"
  then obtain pages where R: "?R pages" ..
  then have fin: "case get (brewery_url st 200 (1 + int (length pages))) of
        Inl e \<Rightarrow> map_sum id brewery_count out = Inl e \<and> out = Inl e
      | Inr r \<Rightarrow>
          if status_code r \<noteq> 200 then map_sum id brewery_count out = Inr (0 + int (length (concat pages)))
          else (case json r of
                  Inl e \<Rightarrow> map_sum id brewery_count out = Inl e
                | Inr xs \<Rightarrow> length xs < 200 \<and>
                    map_sum id brewery_count out = Inr (0 + int (length (concat pages)) + int (length xs)))"
    by (auto split: sum.splits if_splits)
  have out: "out = map_sum id (\<lambda>n. \<lparr>state = st, brewery_count = n\<rparr>) (map_sum id brewery_count out)"
    using R by (cases out) (auto split: sum.splits if_splits)
  have "count_pages get st 1 0 [] =
     Some (map_sum id brewery_count out, [] @ map (brewery_url st 200) [1..1 + int (length pages)])"
    using R fin by (intro count_pages_stops) (auto split: sum.splits if_splits)
  with R out show ?L
    unfolding get_brewery_count_Some_iff by (intro exI[of _ "map_sum id brewery_count out"]) simp
qed

theorem get_brewery_count_pagination_witness:
  "get_brewery_count demo_api ''ohio'' =
     Some (Inr \<lparr>state = ''ohio'', brewery_count = 409\<rparr>,
           [brewery_url ''ohio'' 200 1, brewery_url ''ohio'' 200 2, brewery_url ''ohio'' 200 3])"
  by (rule get_brewery_count_pagination[THEN iffD2],
      rule exI[of _ "[api_page [0..<409] 1, api_page [0..<409] 2]"])
     (auto simp: less_Suc_eq ohio_pages api_page_def upto.simps)

text \<open>
  C2. When the pages before it were full and a page request comes back with a status other
  than 200, \<^verbatim>\<open>get_brewery_count\<close> returns normally: the result carries the number of
  records counted on the pages before, and nothing is raised.
\<close>

theorem get_brewery_count_failed_page:
  assumes "\<forall>i<length pages.
       get (brewery_url st 200 (1 + int i)) = Inr \<lparr>status_code = 200, json = Inr (pages ! i)\<rparr> \<and>
       200 \<le> length (pages ! i)"
    and "get (brewery_url st 200 (1 + int (length pages))) = Inr r"
    and "status_code r \<noteq> 200"
  shows "get_brewery_count get st =
     Some (Inr \<lparr>state = st, brewery_count = int (length (concat pages))\<rparr>,
           map (brewery_url st 200) [1..1 + int (length pages)])"
  using get_brewery_count_run[OF assms(1,2), of 0] assms(3) by simp

theorem get_brewery_count_failed_page_witness:
  "get_brewery_count demo_api ''texas'' =
     Some (Inr \<lparr>state = ''texas'', brewery_count = 200\<rparr>,
           [brewery_url ''texas'' 200 1, brewery_url ''texas'' 200 2])"
  using get_brewery_count_failed_page[of "[[0..<200]]" demo_api "''texas''"
      "\<lparr>status_code = 503, json = Inl (JSONDecodeError ''Service Unavailable'')\<rparr>"]
  by (simp add: texas_pages upto.simps)

text \<open>
  C3, as the example states it: with 100 records on page 1 and 9 records on page 2, the call
  for \<open>''maryland''\<close> would return a count of 109. It does not: the first page is already
  shorter than 200 records.
\<close>

theorem maryland_109_counterexample:
  "maryland_api (brewery_url ''maryland'' 200 1) = Inr \<lparr>status_code = 200, json = Inr [0..<100]\<rparr> \<and>
   maryland_api (brewery_url ''maryland'' 200 2) = Inr \<lparr>status_code = 200, json = Inr [100..<109]\<rparr> \<and>
   length [0..<100] = 100 \<and> length [100..<109] = 9 \<and>
   map_option fst (get_brewery_count maryland_api ''maryland'') \<noteq>
     Some (Inr \<lparr>state = ''maryland'', brewery_count = 109\<rparr>)"
proof -
  have "get_brewery_count maryland_api ''maryland'' =
     Some (Inr \<lparr>state = ''maryland'', brewery_count = 100\<rparr>, [brewery_url ''maryland'' 200 1])"
    using get_brewery_count_run[of "[]" maryland_api "''maryland''"
        "\<lparr>status_code = 200, json = Inr [0..<100]\<rparr>" 100]
    by (simp add: maryland_pages)
  then show ?thesis by (simp add: maryland_pages)
qed

text \<open>
  C3, amended. With 100 records on page 1 and 9 records on page 2, the call for
  \<open>''maryland''\<close> returns the state \<open>''maryland''\<close> with a count of 100 after the single
  request for page 1; page 2 is never requested.
\<close>

theorem get_brewery_count_maryland_first_page:
  assumes "get (brewery_url ''maryland'' 200 1) = Inr \<lparr>status_code = 200, json = Inr page1\<rparr>"
    and "length page1 = 100"
    and "get (brewery_url ''maryland'' 200 2) = Inr \<lparr>status_code = 200, json = Inr page2\<rparr>"
    and "length page2 = 9"
  shows "get_brewery_count get ''maryland'' =
     Some (Inr \<lparr>state = ''maryland'', brewery_count = 100\<rparr>, [brewery_url ''maryland'' 200 1])"
  using get_brewery_count_run[of "[]" get "''maryland''" "\<lparr>status_code = 200, json = Inr page1\<rparr>" 100]
    assms(1,2)
  by simp

theorem get_brewery_count_maryland_first_page_witness:
  "get_brewery_count maryland_api ''maryland'' =
     Some (Inr \<lparr>state = ''maryland'', brewery_count = 100\<rparr>, [brewery_url ''maryland'' 200 1])"
  using get_brewery_count_maryland_first_page[of maryland_api "[0..<100]" "[100..<109]"]
  by (simp add: maryland_pages)

text \<open>
  C6. When the first page comes back with status 200 and no records, the call returns a
  count of 0 and has issued exactly one request, the one for page 1.
\<close>

theorem get_brewery_count_no_records:
  assumes "get (brewery_url st 200 1) = Inr r" and "status_code r = 200" and "json r = Inr []"
  shows "get_brewery_count get st =
     Some (Inr \<lparr>state = st, brewery_count = 0\<rparr>, [brewery_url st 200 1])"
  using get_brewery_count_run[of "[]" get st r 0] assms by simp

theorem get_brewery_count_no_records_witness:
  "get_brewery_count demo_api ''guam'' =
     Some (Inr \<lparr>state = ''guam'', brewery_count = 0\<rparr>, [brewery_url ''guam'' 200 1])"
  using get_brewery_count_no_records[of demo_api "''guam''" "\<lparr>status_code = 200, json = Inr []\<rparr>"]
  by (simp add: demo_pages)

text \<open>
  C7. For a state with \<open>200 * k\<close> records, \<open>k > 0\<close>, served 200 to a page: the pages 1 to
  \<open>k\<close> are full, the call requests one page more, page \<open>k + 1\<close>, which is empty, and returns
  the number of records.
\<close>

theorem get_brewery_count_exact_multiple:
  assumes "0 < k" and "length records = 200 * k"
    and "\<forall>p\<in>{1..int k + 1}. get (brewery_url st 200 p) =
            Inr \<lparr>status_code = 200, json = Inr (api_page records p)\<rparr>"
  shows "get_brewery_count get st =
           Some (Inr \<lparr>state = st, brewery_count = int (length records)\<rparr>,
                 map (brewery_url st 200) [1..int k + 1]) \<and>
         (\<forall>p\<in>{1..int k}. length (api_page records p) = 200) \<and>
         api_page records (int k + 1) = []"
proof -
  have k: "k = length records div 200" using assms(2) by simp
  have "api_page records (1 + int k) = []"
    using assms(2) by (simp add: api_page_Suc)
  then show ?thesis
    using get_brewery_count_paged[OF assms(3) k] api_pages_full[OF k]
    by (simp add: add.commute)
qed

theorem get_brewery_count_exact_multiple_witness:
  "get_brewery_count demo_api ''New York'' =
     Some (Inr \<lparr>state = ''New York'', brewery_count = 400\<rparr>,
           [brewery_url ''New York'' 200 1, brewery_url ''New York'' 200 2,
            brewery_url ''New York'' 200 3]) \<and>
   api_page [0..<400] 3 = []"
proof -
  have served: "\<forall>p\<in>{1..int 2 + 1}. demo_api (brewery_url ''New York'' 200 p) =
            Inr \<lparr>status_code = 200, json = Inr (api_page [0..<400] p)\<rparr>"
    by (simp add: set_upto[symmetric] upto.simps demo_pages del: set_upto)
  have "(0::nat) < 2" and "length [0..<400] = 200 * 2" by simp_all
  from get_brewery_count_exact_multiple[OF this served]
  have "get_brewery_count demo_api ''New York'' =
           Some (Inr \<lparr>state = ''New York'', brewery_count = int (length [0..<400])\<rparr>,
                 map (brewery_url ''New York'' 200) [1..int 2 + 1])"
    and "api_page [0..<400] (int 2 + 1) = []"
    by blast+
  then show ?thesis by (simp add: upto.simps)
qed

text \<open>
  C8. For a state whose number of records is not a multiple of 200, served 200 to a page:
  with \<open>k\<close> full pages, page \<open>k + 1\<close> holds the remaining records, more than none and fewer
  than 200; it is the last page requested, and the call returns the number of records.
\<close>

theorem get_brewery_count_short_last_page:
  assumes "length records mod 200 \<noteq> 0" and "k = length records div 200"
    and "\<forall>p\<in>{1..int k + 1}. get (brewery_url st 200 p) =
            Inr \<lparr>status_code = 200, json = Inr (api_page records p)\<rparr>"
  shows "get_brewery_count get st =
           Some (Inr \<lparr>state = st, brewery_count = int (length records)\<rparr>,
                 map (brewery_url st 200) [1..int k + 1]) \<and>
         (\<forall>p\<in>{1..int k}. length (api_page records p) = 200) \<and>
         0 < length (api_page records (int k + 1)) \<and>
         length (api_page records (int k + 1)) < 200"
proof -
  have "length records - 200 * k = length records mod 200"
    unfolding assms(2) by (rule minus_mult_div_eq_mod)
  then have "length (api_page records (1 + int k)) = length records mod 200"
    by (simp add: api_page_Suc)
  with assms(1) have "0 < length (api_page records (int k + 1)) \<and>
      length (api_page records (int k + 1)) < 200"
    by (simp add: add.commute)
  then show ?thesis
    using get_brewery_count_paged[OF assms(3,2)] api_pages_full[OF assms(2)]
    by simp
qed

theorem get_brewery_count_short_last_page_witness:
  "get_brewery_count demo_api ''ohio'' =
     Some (Inr \<lparr>state = ''ohio'', brewery_count = 409\<rparr>,
           [brewery_url ''ohio'' 200 1, brewery_url ''ohio'' 200 2, brewery_url ''ohio'' 200 3]) \<and>
   0 < length (api_page [0..<409] 3) \<and> length (api_page [0..<409] 3) < 200"
proof -
  have served: "\<forall>p\<in>{1..int 2 + 1}. demo_api (brewery_url ''ohio'' 200 p) =
            Inr \<lparr>status_code = 200, json = Inr (api_page [0..<409] p)\<rparr>"
    by (simp add: set_upto[symmetric] upto.simps ohio_pages del: set_upto)
  have "length [0..<409] mod 200 \<noteq> 0" and "2 = length [0..<409] div 200" by simp_all
  from get_brewery_count_short_last_page[OF this served]
  have "get_brewery_count demo_api ''ohio'' =
           Some (Inr \<lparr>state = ''ohio'', brewery_count = int (length [0..<409])\<rparr>,
                 map (brewery_url ''ohio'' 200) [1..int 2 + 1])"
    and "0 < length (api_page [0..<409] (int 2 + 1))"
    and "length (api_page [0..<409] (int 2 + 1)) < 200"
    by blast+
  then show ?thesis by (simp add: upto.simps)
qed

text \<open>
  C9. The \<^verbatim>\<open>state\<close> entry of a returned result is the argument itself, and every
  request URL is the fixed prefix, the argument as it was passed, \<^verbatim>\<open>&per_page=200&page=\<close>
  and the page number in decimal.
\<close>

theorem get_brewery_count_state_verbatim:
  assumes "get_brewery_count get st = Some (out, reqs)"
  shows "(\<forall>r. out = Inr r \<longrightarrow> state r = st) \<and>
         reqs = map (\<lambda>p. ''https://api.openbrewerydb.org/v1/breweries?by_state='' @ st
                          @ ''&per_page=200&page='' @ str_int p) [1..int (length reqs)]"
proof -
  from assms obtain c where run: "count_pages get st 1 0 [] = Some (c, reqs)"
    and out: "out = map_sum id (\<lambda>n. \<lparr>state = st, brewery_count = n\<rparr>) c"
    by (auto simp: get_brewery_count_Some_iff)
  from count_pages_returns[OF run] obtain pages :: "'a list list"
    where "reqs = map (brewery_url st 200) [1..1 + int (length pages)]"
    by auto
  then have "reqs = map (brewery_url st 200) [1..int (length reqs)]"
    by (simp add: add.commute)
  moreover have "\<forall>r. out = Inr r \<longrightarrow> state r = st"
    using out by (cases c) auto
  ultimately show ?thesis
    by (simp add: brewery_url_200[abs_def])
qed

theorem get_brewery_count_state_verbatim_witness:
  "get_brewery_count demo_api ''New York'' =
     Some (Inr \<lparr>state = ''New York'', brewery_count = 400\<rparr>,
       [''https://api.openbrewerydb.org/v1/breweries?by_state=New York&per_page=200&page=1'',
        ''https://api.openbrewerydb.org/v1/breweries?by_state=New York&per_page=200&page=2'',
        ''https://api.openbrewerydb.org/v1/breweries?by_state=New York&per_page=200&page=3''])"
proof -
  have run: "get_brewery_count demo_api ''New York'' =
     Some (Inr \<lparr>state = ''New York'', brewery_count = 400\<rparr>,
           map (brewery_url ''New York'' 200) [1..1 + int (length [api_page [0..<400] 1, api_page [0..<400] 2])])"
    using get_brewery_count_run[of "[api_page [0..<400] 1, api_page [0..<400] 2]" demo_api "''New York''"
        "\<lparr>status_code = 200, json = Inr (api_page [0..<400] 3)\<rparr>" 0]
    by (simp add: demo_pages less_Suc_eq api_page_def)
  from get_brewery_count_state_verbatim[OF run] run show ?thesis
    by (simp add: upto.simps str_int_digits)
qed

text \<open>
  C10. If some page \<open>n \<ge> 1\<close> comes back with a status other than 200, or empty, or with
  fewer than 200 records, the call returns, after at most \<open>n\<close> requests.
\<close>

theorem get_brewery_count_terminates:
  assumes "1 \<le> n"
    and "get (brewery_url st 200 n) = Inr r"
    and "status_code r \<noteq> 200 \<or> json r = Inr [] \<or> (\<exists>xs. json r = Inr xs \<and> length xs < 200)"
  shows "\<exists>out reqs. get_brewery_count get st = Some (out, reqs) \<and> length reqs \<le> nat n"
proof -
  from assms(3) have "status_code r \<noteq> 200 \<or> (\<exists>xs. json r = Inr xs \<and> length xs < 200)"
    by auto
  from count_pages_terminates[where get = get and st = st and n = n and r = r and p = 1
      and c = 0 and reqs = "[]", OF assms(2) this assms(1)]
  obtain c reqs where "count_pages get st 1 0 [] = Some (c, reqs)" "length reqs \<le> nat n"
    by auto
  then show ?thesis
    by (cases c) (auto simp: get_brewery_count_def)
qed

theorem get_brewery_count_terminates_witness:
  "\<exists>out reqs. get_brewery_count demo_api ''ohio'' = Some (out, reqs) \<and> length reqs \<le> 3"
  using get_brewery_count_terminates[of 3 demo_api "''ohio''"
      "\<lparr>status_code = 200, json = Inr (api_page [0..<409] 3)\<rparr>"]
  by (simp add: ohio_pages api_page_def)

section \<open>Properties of the dispatcher\<close>

text \<open>
  C4. Let every fetch that completes appear in the order of completion. Then the dispatcher
  returns the list \<open>rs\<close> exactly when \<open>rs\<close> has one entry per input state and its entry
  at each position is the result that \<^verbatim>\<open>get_brewery_count\<close> returns for the state at
  that position: the results are in the order of the input, whatever the order of
  completion.
\<close>

theorem get_brewery_counts_for_states_in_input_order:
  assumes "\<forall>i<length states. async_get_brewery_count get (states ! i) \<noteq> None \<longrightarrow> i \<in> set order"
  shows "get_brewery_counts_for_states order get states = Some (Inr rs) \<longleftrightarrow>
         length rs = length states \<and>
         (\<forall>i<length states. \<exists>reqs. get_brewery_count get (states ! i) = Some (Inr (rs ! i), reqs))"
  unfolding dispatcher_Inr_iff[OF assms] by (rule async_results_iff)

theorem get_brewery_counts_for_states_in_input_order_witness:
  "get_brewery_counts_for_states [2, 0, 1] demo_api [''guam'', ''texas'', ''ohio''] =
     Some (Inr [\<lparr>state = ''guam'', brewery_count = 0\<rparr>,
                \<lparr>state = ''texas'', brewery_count = 200\<rparr>,
                \<lparr>state = ''ohio'', brewery_count = 409\<rparr>])"
proof -
  have order: "\<forall>i<length [''guam'', ''texas'', ''ohio''].
      async_get_brewery_count demo_api ([''guam'', ''texas'', ''ohio''] ! i) \<noteq> None \<longrightarrow>
      i \<in> set [2, 0, 1]"
    by (auto simp: less_Suc_eq)
  show ?thesis
    by (rule get_brewery_counts_for_states_in_input_order[OF order, THEN iffD2])
       (auto simp: less_Suc_eq demo_counts)
qed

text \<open>
  C5. Let every fetch that completes appear in the order of completion. Then the dispatcher
  produces the set \<open>S\<close> of pairs of state and count exactly when the serial run over the
  same states, against the same server, produces \<open>S\<close>.
\<close>

theorem dispatcher_matches_serial:
  assumes "\<forall>i<length states. async_get_brewery_count get (states ! i) \<noteq> None \<longrightarrow> i \<in> set order"
  shows "(\<exists>rs. get_brewery_counts_for_states order get states = Some (Inr rs) \<and>
               S = (\<lambda>r. (state r, brewery_count r)) ` set rs) \<longleftrightarrow>
         (\<exists>rs. serial_brewery_counts get states = Some (Inr rs) \<and>
               S = (\<lambda>r. (state r, brewery_count r)) ` set rs)"
  unfolding dispatcher_Inr_iff[OF assms] serial_Inr_iff ..

theorem dispatcher_matches_serial_witness:
  "\<exists>rs. get_brewery_counts_for_states [2, 0, 1] demo_api [''guam'', ''texas'', ''ohio''] =
           Some (Inr rs) \<and>
        {(''guam'', 0), (''texas'', 200), (''ohio'', 409)} =
          (\<lambda>r. (state r, brewery_count r)) ` set rs"
proof -
  have order: "\<forall>i<length [''guam'', ''texas'', ''ohio''].
      async_get_brewery_count demo_api ([''guam'', ''texas'', ''ohio''] ! i) \<noteq> None \<longrightarrow>
      i \<in> set [2, 0, 1]"
    by (auto simp: less_Suc_eq)
  have "serial_brewery_counts demo_api [''guam'', ''texas'', ''ohio''] =
     Some (Inr [\<lparr>state = ''guam'', brewery_count = 0\<rparr>,
                \<lparr>state = ''texas'', brewery_count = 200\<rparr>,
                \<lparr>state = ''ohio'', brewery_count = 409\<rparr>])"
    by (simp add: demo_counts)
  then have "\<exists>rs. serial_brewery_counts demo_api [''guam'', ''texas'', ''ohio''] = Some (Inr rs) \<and>
        {(''guam'', 0), (''texas'', 200), (''ohio'', 409)} =
          (\<lambda>r. (state r, brewery_count r)) ` set rs"
    by simp
  then show ?thesis
    by (rule dispatcher_matches_serial[OF order, THEN iffD2])
qed

end
